theory Spec2Isabelle
  imports Complex_Main
begin

unbundle bit_operations_syntax

section \<open>Errors\<close>

text \<open>
  \<open>ValueError\<close> and \<open>IndexError\<close> are the exceptions the numeric-array library raises
  under the script \<^verbatim>\<open>nv/example_simple.py\<close>; \<open>InputValidationError\<close> is the single
  error kind of the specification (section 7).
\<close>

datatype error = ValueError | IndexError | InputValidationError

section \<open>\<^verbatim>\<open>qtt/tools.py\<close>: flatten\<close>

text \<open>
  \<^verbatim>\<open>flatten(lst) = list(chain(*lst))\<close>. \<open>chain\<close> is the iterator of itertools: it yields
  the items of its first argument one at a time until that is exhausted, then goes on
  with the next argument. \<open>list\<close> collects what the iterator yields.
\<close>

fun chain :: "'a list list \<Rightarrow> 'a list" where
  "chain [] = []"
| "chain ([] # its) = chain its"
| "chain ((x # xs) # its) = x # chain (xs # its)"

definition flatten :: "'a list list \<Rightarrow> 'a list" where
  "flatten lst = chain lst"

section \<open>\<^verbatim>\<open>nv/example_simple.py\<close>: class probabilities\<close>

text \<open>
  \<^verbatim>\<open>bc = np.bincount(lx)\<close>: \<open>lx\<close> is an array of integers, the indices that the
  label encoder gives to the labels. \<open>bincount\<close> raises \<open>ValueError\<close> when an
  element is negative; otherwise the result has one bin for each value from 0 to the
  largest element (\<open>amax\<close>), and no bin at all for an array without elements.
\<close>

definition amax :: "int list \<Rightarrow> int" where
  "amax xs = foldl max (hd xs) (tl xs)"

definition bincount :: "int list \<Rightarrow> error + nat list" where
  "bincount x =
     (if \<exists>v \<in> set x. v < 0 then Inl ValueError
      else if x = [] then Inr []
      else Inr (map (\<lambda>b. count_list x (int b)) [0 ..< nat (amax x) + 1]))"

text \<open>
  \<^verbatim>\<open>prob = bc / bc.sum()\<close>: every bin is divided by the sum of all bins. The quotients
  are floating-point numbers in the script and real numbers here. On an array without
  elements the division touches no element.
\<close>

definition prob :: "int list \<Rightarrow> error + real list" where
  "prob lx =
     (case bincount lx of
        Inl e \<Rightarrow> Inl e
      | Inr bc \<Rightarrow> Inr (map (\<lambda>c. real c / real (sum_list bc)) bc))"

section \<open>\<^verbatim>\<open>nv/example_simple.py\<close>: the label-tracking loop\<close>

text \<open>
  Lines 119 to 135. Both arrays start as zeros of the length of \<open>labels\<close>. The loop
  visits the pairs \<open>(ii, l)\<close> of \<open>enumerate(labels)\<close> in order; the pair with
  \<open>ii = 0\<close> is skipped by \<open>continue\<close>. The arrays hold the numbers 0 to 4, which
  are represented here as integers.
\<close>

definition track_step :: "int list \<times> int list \<Rightarrow> nat \<times> int \<Rightarrow> int list \<times> int list" where
  "track_step s e =
     (case s of (onetwo, threefour) \<Rightarrow>
      case e of (ii, l) \<Rightarrow>
        if ii = 0 then (onetwo, threefour)
        else
          (if l = 1 then onetwo[ii := 1]
           else if l = 2 then onetwo[ii := 2]
           else onetwo[ii := onetwo ! (ii - 1)],
           if l = 3 then threefour[ii := 3]
           else if l = 4 then threefour[ii := 4]
           else threefour[ii := threefour ! (ii - 1)]))"

definition track :: "int list \<Rightarrow> int list \<times> int list" where
  "track labels =
     foldl track_step
       (replicate (length labels) 0, replicate (length labels) 0)
       (enumerate 0 labels)"

definition onetwo :: "int list \<Rightarrow> int list" where
  "onetwo labels = fst (track labels)"

definition threefour :: "int list \<Rightarrow> int list" where
  "threefour labels = snd (track labels)"

text \<open>
  The reading of the loop that is to be compared with it: the most recent label among
  the positions \<open>1..i\<close> that equals \<open>a\<close> or \<open>b\<close>, and 0 when there is none.
  The positions \<open>1..i\<close> of \<open>labels\<close> are the first \<open>i\<close> elements of its tail.
\<close>

definition most_recent :: "int \<Rightarrow> int \<Rightarrow> int list \<Rightarrow> nat \<Rightarrow> int" where
  "most_recent a b labels i =
     (case filter (\<lambda>l. l = a \<or> l = b) (rev (take i (tl labels))) of
        [] \<Rightarrow> 0
      | l # _ \<Rightarrow> l)"

section \<open>\<^verbatim>\<open>nv/example_simple.py\<close>: generate_double2lvl\<close>

text \<open>
  \<open>np.zeros(N)\<close> raises \<open>ValueError\<close> for a negative \<open>N\<close>. The values that the
  successive calls of \<open>np.random.rand()\<close> return are the stream \<open>rand\<close>: iteration
  \<open>ii\<close> of the loop makes call number \<open>ii\<close>. The parameter \<open>q\<close> is not read.
\<close>

definition gen_step :: "real \<Rightarrow> (nat \<Rightarrow> real) \<Rightarrow> int list \<Rightarrow> nat \<Rightarrow> int list" where
  "gen_step p rand x ii =
     (if rand ii \<le> p then x[ii + 1 := (x ! ii) XOR 1]
      else x[ii + 1 := (x ! ii) XOR 2])"

definition generate_double2lvl :: "int \<Rightarrow> real \<Rightarrow> real \<Rightarrow> (nat \<Rightarrow> real) \<Rightarrow> error + int list" where
  "generate_double2lvl N p q rand =
     (if N < 0 then Inl ValueError
      else Inr (foldl (gen_step p rand) (replicate (nat N) 0) [0 ..< nat (N - 1)]))"

section \<open>Transition counts\<close>

text \<open>
  Modelled from the spec: the index that the alphabet assigns to a symbol (section 4.1,
  "each symbol assigned a stable index"), the position of its first occurrence.
\<close>

fun symbol_index :: "'a list \<Rightarrow> 'a \<Rightarrow> nat" where
  "symbol_index [] s = 0"
| "symbol_index (c # cs) s = (if c = s then 0 else Suc (symbol_index cs s))"

text \<open>
  Modelled from the spec: "increment a count at (row, column)" of section 4.1, on a
  matrix that is stored as the list of its rows.
\<close>

definition increment :: "nat list list \<Rightarrow> nat \<Rightarrow> nat \<Rightarrow> nat list list" where
  "increment gg r c = gg[r := (gg ! r)[c := gg ! r ! c + 1]]"

text \<open>
  Modelled from the spec: the increment for the adjacent pair at position \<open>i\<close>; the
  row is the index of the next symbol, the column the index of the current one.
\<close>

definition count_pair :: "'a list \<Rightarrow> 'a list \<Rightarrow> nat list list \<Rightarrow> nat \<Rightarrow> nat list list" where
  "count_pair alphabet sequence gg i =
     increment gg (symbol_index alphabet (sequence ! (i + 1)))
                  (symbol_index alphabet (sequence ! i))"

text \<open>
  Modelled from the spec: \<open>two_grams\<close> is imported from \<open>nvtools.nvtools\<close>, whose
  source is missing; only its call on line 192 is present. Section 4.1 of the
  specification: the result is a square matrix of counts with one row and one column
  for each symbol of the alphabet, and for every adjacent pair
  \<open>(sequence[i], sequence[i+1])\<close>, \<open>i\<close> from 0 to \<open>N - 2\<close>, the count in the row of
  the index of \<open>sequence[i+1]\<close> and the column of the index of \<open>sequence[i]\<close> is
  incremented. Sections 4.1 and 7: an empty sequence, and a sequence with a symbol
  that has no index, are input-validation failures detected before the computation.
  This is the reading of section 4.1, with \<open>N - 1\<close> pairs for \<open>N\<close> symbols; the
  matrix that section 8 prints for \<open>[0,1,0,1,0,1]\<close> holds six counts and is not what
  this reading gives.
\<close>

definition two_grams :: "'a list \<Rightarrow> 'a list \<Rightarrow> error + nat list list" where
  "two_grams alphabet sequence =
     (if sequence = [] \<or> (\<exists>s \<in> set sequence. s \<notin> set alphabet)
      then Inl InputValidationError
      else Inr (foldl (count_pair alphabet sequence)
                  (replicate (length alphabet) (replicate (length alphabet) 0))
                  [0 ..< length sequence - 1]))"

text \<open>The column \<open>gg[:, c]\<close> of a matrix that is stored as the list of its rows.\<close>

definition column :: "nat list list \<Rightarrow> nat \<Rightarrow> nat list" where
  "column gg c = map (\<lambda>row. row ! c) gg"

text \<open>
  The number of positions at which the symbol \<open>cur\<close> is followed by the symbol
  \<open>nxt\<close>.
\<close>

definition followed_by :: "'a list \<Rightarrow> 'a \<Rightarrow> 'a \<Rightarrow> nat" where
  "followed_by sequence cur nxt =
     length (filter (\<lambda>i. sequence ! i = cur \<and> sequence ! (i + 1) = nxt)
               [0 ..< length sequence - 1])"

section \<open>\<^verbatim>\<open>nv/example_simple.py\<close>: the predictions of the bigram model\<close>

text \<open>
  Lines 171 to 210. \<open>alphabet\<close> (the classes of the label encoder) and \<open>chars\<close> are
  both the sorted distinct labels; \<open>labelsX\<close> replaces every label by its index in
  \<open>chars\<close>; \<open>prob\<close> is computed from \<open>labelsX\<close> and \<open>gg\<close> from \<open>labels\<close>.
  \<^verbatim>\<open>y_pred2 = np.vstack((prob, gg[:, labelsX[:-1]].T))\<close> has \<open>prob\<close> as its first
  row and then, for every index \<open>c\<close> of \<open>labelsX\<close> but the last, the column \<open>c\<close>
  of \<open>gg\<close> as a row. An index beyond the columns of \<open>gg\<close> raises \<open>IndexError\<close>;
  \<open>vstack\<close> raises \<open>ValueError\<close> when \<open>prob\<close> and the rows differ in length.
\<close>

definition y_pred2 :: "int list \<Rightarrow> error + real list list" where
  "y_pred2 labels =
     (let alphabet = sort (remdups labels);
          chars = sort (remdups labels);
          labelsX = map (symbol_index chars) labels
      in case prob (map int labelsX) of
           Inl e \<Rightarrow> Inl e
         | Inr p \<Rightarrow>
             (case two_grams alphabet labels of
                Inl e \<Rightarrow> Inl e
              | Inr gg \<Rightarrow>
                  if \<exists>c \<in> set (butlast labelsX). length alphabet \<le> c then Inl IndexError
                  else if length p \<noteq> length gg then Inl ValueError
                  else Inr (p # map (\<lambda>c. map real (column gg c)) (butlast labelsX))))"

text \<open>
  What the specification asks of the caller: a column divided by its column sum.
\<close>

definition normalize_column :: "nat list \<Rightarrow> real list" where
  "normalize_column col = map (\<lambda>c. real c / real (sum_list col)) col"

section \<open>Average number of steps\<close>

text \<open>
  Modelled from the spec: the symbol indices of a predicted distribution sorted by
  probability, descending, the lower index first among equal probabilities (section
  4.1). \<open>sort_key\<close> is a stable sort, ascending in its key.
\<close>

definition ranking :: "real list \<Rightarrow> nat list" where
  "ranking d = sort_key (\<lambda>j. - (d ! j)) [0 ..< length d]"

text \<open>
  Modelled from the spec: the 1-based position of an element in a list (0 for an
  element that does not occur).
\<close>

fun position :: "'a \<Rightarrow> 'a list \<Rightarrow> nat" where
  "position t [] = 0"
| "position t (x # xs) = (if x = t then 1 else 1 + position t xs)"

text \<open>
  Modelled from the spec: the rank of the true label \<open>t\<close> under the distribution
  \<open>d\<close>, the number of guesses in the order of \<open>ranking\<close> up to the right one.
\<close>

definition rank :: "real list \<Rightarrow> nat \<Rightarrow> nat" where
  "rank d t = position t (ranking d)"

text \<open>
  Modelled from the spec: the input that sections 4.1 and 7 accept. An empty sequence,
  sequences of different lengths, a label without an entry in its distribution and a
  negative entry are input-validation failures.
\<close>

definition well_formed :: "nat list \<Rightarrow> real list list \<Rightarrow> bool" where
  "well_formed trueLabels predictedDistributions \<longleftrightarrow>
     trueLabels \<noteq> []
     \<and> length trueLabels = length predictedDistributions
     \<and> (\<forall>(t, d) \<in> set (zip trueLabels predictedDistributions).
           t < length d \<and> (\<forall>v \<in> set d. 0 \<le> v))"

text \<open>
  Modelled from the spec: \<open>avg_steps\<close> is imported from \<open>nvtools.nvtools\<close>, whose
  source is missing; only its calls are present. Section 4.1 of the specification:
  the failures are detected before the computation; the score is the average, over
  all positions, of the rank of the true label under the predicted distribution of
  the position.
\<close>

definition avg_steps :: "nat list \<Rightarrow> real list list \<Rightarrow> error + real" where
  "avg_steps trueLabels predictedDistributions =
     (if \<not> well_formed trueLabels predictedDistributions then Inl InputValidationError
      else Inr (real (sum_list (map (\<lambda>(t, d). rank d t)
                                   (zip trueLabels predictedDistributions)))
                / real (length trueLabels)))"

section \<open>Loop invariants\<close>

text \<open>The invariant of the loop of \<open>generate_double2lvl\<close> after \<open>m\<close> iterations.\<close>

definition gen_inv :: "nat \<Rightarrow> nat \<Rightarrow> int list \<Rightarrow> bool" where
  "gen_inv n m x \<longleftrightarrow>
     length x = n
     \<and> (\<forall>i. m < i \<and> i < n \<longrightarrow> x ! i = 0)
     \<and> (0 < n \<longrightarrow> x ! 0 = 0)
     \<and> (\<forall>i. i < m \<and> i + 1 < n \<longrightarrow> x ! (i + 1) = x ! i XOR 1 \<or> x ! (i + 1) = x ! i XOR 2)"

text \<open>The invariant of the label-tracking loop after \<open>m\<close> iterations.\<close>

definition track_inv :: "int list \<Rightarrow> nat \<Rightarrow> int list \<times> int list \<Rightarrow> bool" where
  "track_inv labels m s \<longleftrightarrow>
     length (fst s) = length labels \<and> length (snd s) = length labels
     \<and> (\<forall>i < length labels. fst s ! i = (if i < m then most_recent 1 2 labels i else 0))
     \<and> (\<forall>i < length labels. snd s ! i = (if i < m then most_recent 3 4 labels i else 0))"

section \<open>Auxiliary notions for the transition counts\<close>

text \<open>A matrix with \<open>k\<close> rows of length \<open>k\<close>.\<close>

definition square :: "nat \<Rightarrow> nat list list \<Rightarrow> bool" where
  "square k gg \<longleftrightarrow> length gg = k \<and> (\<forall>r < k. length (gg ! r) = k)"

text \<open>
  The number of the first \<open>m\<close> adjacent pairs whose next symbol has index \<open>r\<close>
  and whose current symbol has index \<open>c\<close>.
\<close>

definition pairs_before :: "'a list \<Rightarrow> 'a list \<Rightarrow> nat \<Rightarrow> nat \<Rightarrow> nat \<Rightarrow> nat" where
  "pairs_before alphabet sequence m r c =
     length (filter (\<lambda>i. symbol_index alphabet (sequence ! (i + 1)) = r
                          \<and> symbol_index alphabet (sequence ! i) = c) [0 ..< m])"

section \<open>Properties of flatten\<close>

lemma chain_concat: "chain lst = concat lst"
  by (induction lst rule: chain.induct) simp_all

text \<open>
  Claim C10. For every list of lists, \<open>flatten\<close> returns the concatenation of the inner
  lists in their original order, the example of the docstring gives
  \<open>[1, 2, 3, 4, 10]\<close>, and the length of the result is the sum of the lengths of the
  inner lists.
\<close>

theorem flatten_concat:
  "flatten lst = concat lst
   \<and> length (flatten lst) = sum_list (map length lst)
   \<and> flatten [[1, 2], [3, 4], [10 :: int]] = [1, 2, 3, 4, 10]"
  by (simp add: flatten_def chain_concat length_concat)

section \<open>Properties of the class probabilities\<close>

lemma amax_example: "amax [0, 0, 1, 1, 0, 1] = 1"
  by (simp add: amax_def)

lemma bincount_example: "bincount [0, 0, 1, 1, 0, 1] = Inr [3, 3]"
  by (simp add: bincount_def amax_example upt_rec)

text \<open>
  Claim C6. For the sequence \<open>[0,0,1,1,0,1]\<close> the class probabilities are
  \<open>0.5\<close> for label 0 and \<open>0.5\<close> for label 1.
\<close>

theorem prob_example: "prob [0, 0, 1, 1, 0, 1] = Inr [1 / 2, 1 / 2]"
  by (simp add: prob_def bincount_example)

lemma prob_empty: "prob [] = Inr []"
  by (simp add: prob_def bincount_def)

lemma foldl_max_ge: "a \<le> foldl max (a::int) xs"
  by (induction xs arbitrary: a) (auto intro: order_trans[OF max.cobounded1])

lemma foldl_max_mem: "x \<in> set xs \<Longrightarrow> x \<le> foldl max (a::int) xs"
  by (induction xs arbitrary: a) (auto intro: order_trans[OF max.cobounded2 foldl_max_ge])

lemma amax_ge: "x \<in> set xs \<Longrightarrow> x \<le> amax xs"
  by (cases xs) (auto simp: amax_def foldl_max_ge foldl_max_mem)

lemma sum_bins:
  assumes "\<forall>v \<in> set x. 0 \<le> v \<and> v < int m"
  shows "sum_list (map (\<lambda>b. count_list x (int b)) [0 ..< m]) = length x"
proof -
  have "sum_list (map (\<lambda>b. count_list x (int b)) [0 ..< m]) = (\<Sum>b \<in> {0 ..< m}. count_list x (int b))"
    by (simp add: sum_list_distinct_conv_sum_set)
  also have "\<dots> = sum (count_list x) (int ` {0 ..< m})"
    by (simp add: sum.reindex)
  also have "\<dots> = length x"
  proof (rule sum_count_set)
    show "set x \<subseteq> int ` {0 ..< m}"
    proof
      fix v assume "v \<in> set x"
      with assms have "0 \<le> v" "v < int m" by auto
      then have "v = int (nat v)" "nat v \<in> {0 ..< m}" by auto
      then show "v \<in> int ` {0 ..< m}" by blast
    qed
  qed simp
  finally show ?thesis .
qed

lemma bincount_ok:
  assumes "\<forall>v \<in> set x. 0 \<le> v" "x \<noteq> []"
  shows "bincount x = Inr (map (\<lambda>b. count_list x (int b)) [0 ..< nat (amax x) + 1])"
    and "sum_list (map (\<lambda>b. count_list x (int b)) [0 ..< nat (amax x) + 1]) = length x"
proof -
  show "bincount x = Inr (map (\<lambda>b. count_list x (int b)) [0 ..< nat (amax x) + 1])"
    using assms by (auto simp: bincount_def)
  have "\<forall>v \<in> set x. 0 \<le> v \<and> v < int (nat (amax x) + 1)"
    using assms(1) amax_ge[of _ x] by fastforce
  then show "sum_list (map (\<lambda>b. count_list x (int b)) [0 ..< nat (amax x) + 1]) = length x"
    by (rule sum_bins)
qed

lemma bincount_error: "bincount x = Inl e \<longleftrightarrow> e = ValueError \<and> (\<exists>v \<in> set x. v < 0)"
  by (auto simp: bincount_def)

lemma prob_error: "prob x = Inl e \<longleftrightarrow> e = ValueError \<and> (\<exists>v \<in> set x. v < 0)"
  by (auto simp: prob_def bincount_error split: sum.splits) (auto simp: bincount_def split: if_splits)

lemma sum_list_divide: "sum_list (map (\<lambda>c. real c / k) bc) = real (sum_list bc) / k"
  by (induction bc) (simp_all add: add_divide_distrib)

text \<open>
  Claim C5. For every non-empty sequence of label indices the class probabilities are
  defined, the entry of every label that occurs is its number of occurrences divided by
  the length of the sequence, no entry is negative, and the entries sum to 1 (as real
  numbers exactly, hence within any tolerance).
\<close>

theorem prob_freq:
  assumes "lx \<noteq> []" and "\<forall>v \<in> set lx. 0 \<le> v"
  shows "\<exists>p. prob lx = Inr p
           \<and> (\<forall>l \<in> set lx. nat l < length p
                  \<and> p ! nat l = real (count_list lx l) / real (length lx))
           \<and> (\<forall>v \<in> set p. 0 \<le> v)
           \<and> sum_list p = 1
           \<and> \<bar>sum_list p - 1\<bar> \<le> 1 / 10 ^ 9"
proof -
  define m where "m = nat (amax lx) + 1"
  define bc where "bc = map (\<lambda>b. count_list lx (int b)) [0 ..< m]"
  define p where "p = map (\<lambda>c. real c / real (length lx)) bc"
  have bc: "bincount lx = Inr bc" and total: "sum_list bc = length lx"
    using bincount_ok[OF assms(2) assms(1)] by (simp_all add: bc_def m_def)
  have p: "prob lx = Inr p"
    by (simp add: prob_def bc total p_def)
  have freq: "nat l < length p \<and> p ! nat l = real (count_list lx l) / real (length lx)"
    if "l \<in> set lx" for l
  proof -
    from that assms(2) have "0 \<le> l" "l \<le> amax lx" by (auto simp: amax_ge)
    then have "nat l < m" unfolding m_def by linarith
    with \<open>0 \<le> l\<close> show ?thesis by (simp add: p_def bc_def)
  qed
  have nonneg: "\<forall>v \<in> set p. 0 \<le> v"
    by (auto simp: p_def)
  have "sum_list p = real (sum_list bc) / real (length lx)"
    unfolding p_def by (rule sum_list_divide)
  with total assms(1) have one: "sum_list p = 1" by simp
  from p freq nonneg one show ?thesis by auto
qed

theorem prob_freq_witness:
  "[2, 0, 2, 2 :: int] \<noteq> []
   \<and> (\<exists>p. prob [2, 0, 2, 2] = Inr p \<and> p ! 0 = 1 / 4 \<and> p ! 2 = 3 / 4 \<and> sum_list p = 1)"
  using prob_freq [of "[2, 0, 2, 2]"] by auto

text \<open>
  The claim C3 as it is written fails: the empty sequence is not rejected.
\<close>

theorem prob_empty_accepted: "prob [] = Inr [] \<and> prob [] \<noteq> Inl InputValidationError"
  by (simp add: prob_def bincount_def)

text \<open>
  Claim C3, amended. The class-probability estimation validates nothing: for the empty
  sequence it returns the empty vector of probabilities; for a sequence of
  non-negative label indices, empty or not, there is no error; the one error is the
  \<open>ValueError\<close> that \<open>bincount\<close> raises on a negative index.
\<close>

theorem prob_no_validation:
  "prob [] = Inr []
   \<and> ((\<forall>v \<in> set lx. 0 \<le> v) \<longrightarrow> (\<exists>p. prob lx = Inr p \<and> length p = (if lx = [] then 0 else nat (amax lx) + 1)))
   \<and> (\<forall>e. prob lx = Inl e \<longrightarrow> e = ValueError \<and> (\<exists>v \<in> set lx. v < 0))"
  by (auto simp: prob_def bincount_def not_le [symmetric])

theorem prob_no_validation_witness:
  "prob [] = Inr []
   \<and> (\<exists>p. prob [1, 1] = Inr p \<and> length p = 2)
   \<and> prob [-1] = Inl ValueError \<and> (\<exists>v \<in> set [-1 :: int]. v < 0)"
proof -
  have "prob [-1] = Inl ValueError"
    by (simp add: prob_def bincount_def)
  with prob_no_validation [of "[1, 1]"] prob_no_validation [of "[-1]"]
  show ?thesis by (simp add: amax_def numeral_2_eq_2)
qed

section \<open>Properties of generate_double2lvl\<close>

lemma xor_small: "v \<in> {0, 1, 2, 3 :: int} \<Longrightarrow> v XOR 1 \<in> {0, 1, 2, 3} \<and> v XOR 2 \<in> {0, 1, 2, 3}"
  by auto

lemma gen_step_length: "length (gen_step p rand x ii) = length x"
  by (simp add: gen_step_def)

lemma gen_inv_init: "gen_inv n 0 (replicate n 0)"
  by (simp add: gen_inv_def)

lemma gen_inv_step:
  assumes "gen_inv n m x" and "m + 1 < n"
  shows "gen_inv n (Suc m) (gen_step p rand x m)"
proof -
  from assms have len: "length x = n" by (simp add: gen_inv_def)
  define y where "y = gen_step p rand x m"
  have y_len: "length y = n" by (simp add: y_def gen_step_length len)
  have y_same: "y ! i = x ! i" if "i \<noteq> m + 1" for i
    using that by (simp add: y_def gen_step_def)
  have y_new: "y ! (m + 1) = x ! m XOR 1 \<or> y ! (m + 1) = x ! m XOR 2"
    using assms(2) len by (simp add: y_def gen_step_def)
  have "\<forall>i. Suc m < i \<and> i < n \<longrightarrow> y ! i = 0"
    using assms(1) by (simp add: y_same gen_inv_def)
  moreover have "0 < n \<longrightarrow> y ! 0 = 0"
    using assms(1) by (simp add: y_same gen_inv_def)
  moreover have "y ! (i + 1) = y ! i XOR 1 \<or> y ! (i + 1) = y ! i XOR 2"
    if "i < Suc m" "i + 1 < n" for i
  proof (cases "i = m")
    case True
    with y_new y_same[of m] show ?thesis by simp
  next
    case False
    with that have "i < m" by simp
    with assms(1) that have "x ! (i + 1) = x ! i XOR 1 \<or> x ! (i + 1) = x ! i XOR 2"
      by (simp add: gen_inv_def)
    with \<open>i < m\<close> show ?thesis by (simp add: y_same)
  qed
  ultimately show ?thesis
    unfolding y_def [symmetric] gen_inv_def using y_len by blast
qed

lemma gen_inv_loop: "m + 1 \<le> n \<or> m = 0 \<Longrightarrow> gen_inv n m (foldl (gen_step p rand) (replicate n 0) [0 ..< m])"
proof (induction m)
  case 0
  show ?case by (simp add: gen_inv_init)
next
  case (Suc m)
  then have "gen_inv n m (foldl (gen_step p rand) (replicate n 0) [0 ..< m])" by simp
  moreover from Suc.prems have "m + 1 < n" by simp
  ultimately show ?case by (simp add: gen_inv_step)
qed

lemma chain_small:
  assumes "x ! 0 = (0::int)"
    and "\<forall>i. i + 1 < length x \<longrightarrow> x ! (i + 1) = x ! i XOR 1 \<or> x ! (i + 1) = x ! i XOR 2"
  shows "i < length x \<Longrightarrow> x ! i \<in> {0, 1, 2, 3}"
proof (induction i)
  case 0
  with assms(1) show ?case by simp
next
  case (Suc i)
  then have "x ! i \<in> {0, 1, 2, 3}" by simp
  from xor_small[OF this] assms(2) Suc.prems show ?case
    by (metis Suc_eq_plus1)
qed

text \<open>
  Claim C8. For every \<open>N \<ge> 1\<close>, every \<open>p\<close> and \<open>q\<close> and whatever the
  random draws are, \<open>generate_double2lvl\<close> returns an array of length \<open>N\<close> whose
  first element is 0 and in which every element is its predecessor XOR 1 or XOR 2; so
  every element is one of 0, 1, 2, 3.
\<close>

theorem generate_double2lvl_chain:
  assumes "1 \<le> N"
  shows "\<exists>x. generate_double2lvl N p q rand = Inr x
           \<and> length x = nat N
           \<and> x ! 0 = 0
           \<and> (\<forall>i. i + 1 < nat N \<longrightarrow> x ! (i + 1) = x ! i XOR 1 \<or> x ! (i + 1) = x ! i XOR 2)
           \<and> (\<forall>v \<in> set x. v \<in> {0, 1, 2, 3})"
proof -
  define n where "n = nat N"
  define x where "x = foldl (gen_step p rand) (replicate n 0) [0 ..< n - 1]"
  from assms have n: "0 < n" and m: "nat (N - 1) = n - 1" by (simp_all add: n_def)
  have res: "generate_double2lvl N p q rand = Inr x"
    using assms by (simp add: generate_double2lvl_def x_def n_def [symmetric] m)
  have "gen_inv n (n - 1) x"
    unfolding x_def using n by (intro gen_inv_loop) simp
  then have len: "length x = n" and zero: "x ! 0 = 0"
    and step: "\<forall>i. i + 1 < n \<longrightarrow> x ! (i + 1) = x ! i XOR 1 \<or> x ! (i + 1) = x ! i XOR 2"
    using n by (auto simp: gen_inv_def)
  have "\<forall>v \<in> set x. v \<in> {0, 1, 2, 3}"
  proof
    fix v assume "v \<in> set x"
    then obtain i where "i < length x" "v = x ! i" by (auto simp: in_set_conv_nth)
    with chain_small[of x i] zero step len show "v \<in> {0, 1, 2, 3}" by blast
  qed
  with res len zero step show ?thesis unfolding n_def by blast
qed

theorem generate_double2lvl_chain_witness:
  "(1::int) \<le> 3
   \<and> (\<exists>x. generate_double2lvl 3 (35 / 100) (65 / 100) (\<lambda>i. if i = 0 then 1 / 10 else 9 / 10)
             = Inr x
          \<and> x = [0, 1, 3] \<and> length x = 3 \<and> x ! 0 = 0
          \<and> x ! 1 = x ! 0 XOR 1 \<and> x ! 2 = x ! 1 XOR 2 \<and> set x \<subseteq> {0, 1, 2, 3})"
proof -
  have "generate_double2lvl 3 (35 / 100) (65 / 100) (\<lambda>i. if i = 0 then 1 / 10 else 9 / 10)
          = Inr [0, 1, 3]"
    by (simp add: generate_double2lvl_def gen_step_def upt_rec eval_nat_numeral)
  with generate_double2lvl_chain [of 3 "35 / 100" "65 / 100" "\<lambda>i. if i = 0 then 1 / 10 else 9 / 10"]
  show ?thesis by simp
qed

section \<open>Properties of the label-tracking loop\<close>

lemma most_recent_0: "most_recent a b labels 0 = 0"
  by (simp add: most_recent_def)

lemma most_recent_Suc:
  assumes "Suc i < length labels"
  shows "most_recent a b labels (Suc i) =
           (if labels ! Suc i = a \<or> labels ! Suc i = b then labels ! Suc i
            else most_recent a b labels i)"
proof -
  from assms have "i < length (tl labels)" by simp
  then have "take (Suc i) (tl labels) = take i (tl labels) @ [tl labels ! i]"
    by (rule take_Suc_conv_app_nth)
  moreover from assms have "tl labels ! i = labels ! Suc i"
    by (simp add: nth_tl)
  ultimately show ?thesis by (simp add: most_recent_def)
qed

text \<open>
  \<open>most_recent\<close> in the words of the claim: its value is the label at the last
  position \<open>j\<close> in \<open>1..i\<close> that holds \<open>a\<close> or \<open>b\<close>, and 0 when no position
  in \<open>1..i\<close> holds one of them.
\<close>

lemma most_recent_cases:
  assumes "i < length labels"
  shows "(\<exists>j. 1 \<le> j \<and> j \<le> i \<and> (labels ! j = a \<or> labels ! j = b)
              \<and> (\<forall>j'. j < j' \<and> j' \<le> i \<longrightarrow> labels ! j' \<noteq> a \<and> labels ! j' \<noteq> b)
              \<and> most_recent a b labels i = labels ! j)
         \<or> ((\<forall>j. 1 \<le> j \<and> j \<le> i \<longrightarrow> labels ! j \<noteq> a \<and> labels ! j \<noteq> b)
              \<and> most_recent a b labels i = 0)"
  using assms
proof (induction i)
  case 0
  show ?case by (simp add: most_recent_0)
next
  case (Suc i)
  show ?case
  proof (cases "labels ! Suc i = a \<or> labels ! Suc i = b")
    case True
    with Suc.prems have "most_recent a b labels (Suc i) = labels ! Suc i"
      by (simp add: most_recent_Suc)
    with True have "1 \<le> Suc i \<and> Suc i \<le> Suc i \<and> (labels ! Suc i = a \<or> labels ! Suc i = b)
              \<and> (\<forall>j'. Suc i < j' \<and> j' \<le> Suc i \<longrightarrow> labels ! j' \<noteq> a \<and> labels ! j' \<noteq> b)
              \<and> most_recent a b labels (Suc i) = labels ! Suc i"
      by simp
    then show ?thesis by blast
  next
    case False
    with Suc.prems have eq: "most_recent a b labels (Suc i) = most_recent a b labels i"
      by (simp add: most_recent_Suc)
    from Suc have "(\<exists>j. 1 \<le> j \<and> j \<le> i \<and> (labels ! j = a \<or> labels ! j = b)
              \<and> (\<forall>j'. j < j' \<and> j' \<le> i \<longrightarrow> labels ! j' \<noteq> a \<and> labels ! j' \<noteq> b)
              \<and> most_recent a b labels i = labels ! j)
         \<or> ((\<forall>j. 1 \<le> j \<and> j \<le> i \<longrightarrow> labels ! j \<noteq> a \<and> labels ! j \<noteq> b)
              \<and> most_recent a b labels i = 0)"
      by simp
    then show ?thesis
    proof
      assume "\<exists>j. 1 \<le> j \<and> j \<le> i \<and> (labels ! j = a \<or> labels ! j = b)
              \<and> (\<forall>j'. j < j' \<and> j' \<le> i \<longrightarrow> labels ! j' \<noteq> a \<and> labels ! j' \<noteq> b)
              \<and> most_recent a b labels i = labels ! j"
      then obtain j where j: "1 \<le> j" "j \<le> i" "labels ! j = a \<or> labels ! j = b"
        "\<forall>j'. j < j' \<and> j' \<le> i \<longrightarrow> labels ! j' \<noteq> a \<and> labels ! j' \<noteq> b"
        "most_recent a b labels i = labels ! j"
        by blast
      have "\<forall>j'. j < j' \<and> j' \<le> Suc i \<longrightarrow> labels ! j' \<noteq> a \<and> labels ! j' \<noteq> b"
        using j(4) False by (metis le_SucE)
      with j eq have "1 \<le> j \<and> j \<le> Suc i \<and> (labels ! j = a \<or> labels ! j = b)
              \<and> (\<forall>j'. j < j' \<and> j' \<le> Suc i \<longrightarrow> labels ! j' \<noteq> a \<and> labels ! j' \<noteq> b)
              \<and> most_recent a b labels (Suc i) = labels ! j"
        by simp
      then show ?thesis by blast
    next
      assume none: "(\<forall>j. 1 \<le> j \<and> j \<le> i \<longrightarrow> labels ! j \<noteq> a \<and> labels ! j \<noteq> b)
              \<and> most_recent a b labels i = 0"
      then have "\<forall>j. 1 \<le> j \<and> j \<le> Suc i \<longrightarrow> labels ! j \<noteq> a \<and> labels ! j \<noteq> b"
        using False by (metis le_SucE)
      with none eq show ?thesis by simp
    qed
  qed
qed

lemma track_inv_step:
  assumes "track_inv labels m s" and "m < length labels"
  shows "track_inv labels (Suc m) (track_step s (m, labels ! m))"
proof (cases m)
  case 0
  with assms show ?thesis
    by (auto simp: track_inv_def track_step_def most_recent_0 split: prod.splits)
next
  case (Suc k)
  obtain a b where s: "s = (a, b)" by (cases s)
  from assms s have len: "length a = length labels" "length b = length labels"
    and a: "\<forall>i < length labels. a ! i = (if i < m then most_recent 1 2 labels i else 0)"
    and b: "\<forall>i < length labels. b ! i = (if i < m then most_recent 3 4 labels i else 0)"
    by (simp_all add: track_inv_def)
  from assms(2) Suc have k: "k < length labels" "k < m" by simp_all
  with a b have prev: "a ! k = most_recent 1 2 labels k" "b ! k = most_recent 3 4 labels k"
    by simp_all
  define s' where "s' = track_step s (m, labels ! m)"
  have fst_new: "fst s' ! m = most_recent 1 2 labels m"
    using assms(2) len prev most_recent_Suc[of k labels 1 2]
    by (simp add: s'_def s track_step_def Suc)
  have snd_new: "snd s' ! m = most_recent 3 4 labels m"
    using assms(2) len prev most_recent_Suc[of k labels 3 4]
    by (simp add: s'_def s track_step_def Suc)
  have old: "fst s' ! i = a ! i \<and> snd s' ! i = b ! i" if "i \<noteq> m" for i
    using that by (simp add: s'_def s track_step_def Suc)
  have lens: "length (fst s') = length labels" "length (snd s') = length labels"
    using len by (simp_all add: s'_def s track_step_def Suc)
  have "fst s' ! i = (if i < Suc m then most_recent 1 2 labels i else 0)"
    if "i < length labels" for i
    using that a fst_new old[of i] by (cases "i = m") auto
  moreover have "snd s' ! i = (if i < Suc m then most_recent 3 4 labels i else 0)"
    if "i < length labels" for i
    using that b snd_new old[of i] by (cases "i = m") auto
  ultimately show ?thesis
    unfolding s'_def [symmetric] track_inv_def using lens by blast
qed

lemma track_inv_loop:
  "m \<le> length labels \<Longrightarrow>
   track_inv labels m
     (foldl track_step (replicate (length labels) 0, replicate (length labels) 0)
        (take m (enumerate 0 labels)))"
proof (induction m)
  case 0
  show ?case by (simp add: track_inv_def)
next
  case (Suc m)
  then have m: "m < length labels" by simp
  then have "take (Suc m) (enumerate 0 labels) = take m (enumerate 0 labels) @ [(m, labels ! m)]"
    by (simp add: take_Suc_conv_app_nth nth_enumerate_eq)
  with Suc.IH m show ?case by (simp add: track_inv_step)
qed

lemma track_inv_final: "track_inv labels (length labels) (track labels)"
  using track_inv_loop[of "length labels" labels] by (simp add: track_def)

lemma track_first: "track (a # ls) = track (b # ls)"
  by (simp add: track_def enumerate_simps track_step_def)

text \<open>
  Claim C9. After the label-tracking loop \<open>onetwo[0] = 0\<close>, and for every
  \<open>i \<ge> 1\<close> the entry \<open>onetwo[i]\<close> is the most recent label among the positions
  \<open>1..i\<close> that is 1 or 2, or 0 when there is none; \<open>threefour\<close> is the same for
  the labels 3 and 4; \<open>labels[0]\<close> influences neither array.
\<close>

theorem onetwo_threefour_most_recent:
  assumes "labels \<noteq> []"
  shows "length (onetwo labels) = length labels \<and> length (threefour labels) = length labels
         \<and> onetwo labels ! 0 = 0 \<and> threefour labels ! 0 = 0
         \<and> (\<forall>i. 1 \<le> i \<and> i < length labels \<longrightarrow>
                onetwo labels ! i = most_recent 1 2 labels i
                \<and> threefour labels ! i = most_recent 3 4 labels i)
         \<and> (\<forall>l. onetwo (l # tl labels) = onetwo labels
                \<and> threefour (l # tl labels) = threefour labels)"
proof -
  from assms obtain a ls where labels: "labels = a # ls" by (cases labels) auto
  have inv: "track_inv labels (length labels) (track labels)" by (rule track_inv_final)
  then have "\<forall>i < length labels. onetwo labels ! i = most_recent 1 2 labels i"
    and "\<forall>i < length labels. threefour labels ! i = most_recent 3 4 labels i"
    and "length (onetwo labels) = length labels" "length (threefour labels) = length labels"
    by (simp_all add: track_inv_def onetwo_def threefour_def)
  moreover have "0 < length labels" using assms by simp
  moreover have "\<forall>l. onetwo (l # tl labels) = onetwo labels
                \<and> threefour (l # tl labels) = threefour labels"
  proof
    fix l
    show "onetwo (l # tl labels) = onetwo labels \<and> threefour (l # tl labels) = threefour labels"
      using track_first[of l ls a] by (simp add: labels onetwo_def threefour_def)
  qed
  ultimately show ?thesis by (simp add: most_recent_0)
qed

theorem onetwo_threefour_most_recent_witness:
  "[2, 0, 1, 3, 0, 2, 4 :: int] \<noteq> []
   \<and> onetwo [2, 0, 1, 3, 0, 2, 4] = [0, 0, 1, 1, 1, 2, 2]
   \<and> threefour [2, 0, 1, 3, 0, 2, 4] = [0, 0, 0, 3, 3, 3, 4]
   \<and> onetwo [2, 0, 1, 3, 0, 2, 4] ! 4 = most_recent 1 2 [2, 0, 1, 3, 0, 2, 4] 4
   \<and> threefour [2, 0, 1, 3, 0, 2, 4] ! 4 = most_recent 3 4 [2, 0, 1, 3, 0, 2, 4] 4
   \<and> onetwo (7 # tl [2, 0, 1, 3, 0, 2, 4]) = onetwo [2, 0, 1, 3, 0, 2, 4]
   \<and> threefour (7 # tl [2, 0, 1, 3, 0, 2, 4]) = threefour [2, 0, 1, 3, 0, 2, 4]"
proof -
  have "onetwo [2, 0, 1, 3, 0, 2, 4] = [0, 0, 1, 1, 1, 2, 2]"
    and "threefour [2, 0, 1, 3, 0, 2, 4] = [0, 0, 0, 3, 3, 3, 4]"
    by (simp_all add: onetwo_def threefour_def track_def enumerate_simps track_step_def)
  moreover have "most_recent 1 2 [2, 0, 1, 3, 0, 2, 4] 4 = 1"
    and "most_recent 3 4 [2, 0, 1, 3, 0, 2, 4] 4 = 3"
    by (simp_all add: most_recent_def eval_nat_numeral)
  moreover note onetwo_threefour_most_recent [of "[2, 0, 1, 3, 0, 2, 4]"]
  ultimately show ?thesis by simp
qed

section \<open>Properties of the transition counts\<close>

lemma symbol_index_less: "s \<in> set alphabet \<Longrightarrow> symbol_index alphabet s < length alphabet"
  by (induction alphabet) auto

lemma nth_symbol_index: "s \<in> set alphabet \<Longrightarrow> alphabet ! symbol_index alphabet s = s"
  by (induction alphabet) auto

lemma symbol_index_nth:
  "distinct alphabet \<Longrightarrow> i < length alphabet \<Longrightarrow> symbol_index alphabet (alphabet ! i) = i"
proof (induction alphabet arbitrary: i)
  case Nil
  then show ?case by simp
next
  case (Cons a alphabet)
  then show ?case by (cases i) auto
qed

lemma symbol_index_eq_iff:
  assumes "distinct alphabet" "s \<in> set alphabet" "c < length alphabet"
  shows "symbol_index alphabet s = c \<longleftrightarrow> s = alphabet ! c"
  using assms nth_symbol_index symbol_index_nth by metis

lemma square_zeros: "square k (replicate k (replicate k 0))"
  by (simp add: square_def)

lemma square_increment:
  assumes "square k gg"
  shows "square k (increment gg r c)"
proof -
  have "length (increment gg r c ! r') = k" if "r' < k" for r'
    using that assms by (cases "r' = r") (simp_all add: square_def increment_def)
  with assms show ?thesis by (simp add: square_def increment_def)
qed

lemma nth_increment:
  assumes "square k gg" "r < k" "c < k" "r' < k" "c' < k"
  shows "increment gg r c ! r' ! c' = gg ! r' ! c' + (if r' = r \<and> c' = c then 1 else 0)"
  using assms by (auto simp: square_def increment_def nth_list_update)

lemma pairs_before_0: "pairs_before alphabet sequence 0 r c = 0"
  by (simp add: pairs_before_def)

lemma pairs_before_Suc:
  "pairs_before alphabet sequence (Suc m) r c =
     pairs_before alphabet sequence m r c
     + (if r = symbol_index alphabet (sequence ! (m + 1))
           \<and> c = symbol_index alphabet (sequence ! m) then 1 else 0)"
  by (auto simp: pairs_before_def)

lemma count_loop:
  assumes "\<forall>s \<in> set sequence. s \<in> set alphabet" and "m + 1 \<le> length sequence \<or> m = 0"
  shows "square (length alphabet) (foldl (count_pair alphabet sequence)
            (replicate (length alphabet) (replicate (length alphabet) 0)) [0 ..< m])
         \<and> (\<forall>r < length alphabet. \<forall>c < length alphabet.
              foldl (count_pair alphabet sequence)
                (replicate (length alphabet) (replicate (length alphabet) 0)) [0 ..< m] ! r ! c
              = pairs_before alphabet sequence m r c)"
  using assms(2)
proof (induction m)
  case 0
  show ?case by (simp add: square_zeros pairs_before_0)
next
  case (Suc m)
  define k where "k = length alphabet"
  define gg where "gg = foldl (count_pair alphabet sequence) (replicate k (replicate k 0)) [0 ..< m]"
  from Suc have sq: "square k gg"
    and cnt: "\<forall>r < k. \<forall>c < k. gg ! r ! c = pairs_before alphabet sequence m r c"
    by (simp_all add: gg_def k_def)
  from Suc.prems have "m < length sequence" "m + 1 < length sequence" by simp_all
  with assms(1) have "sequence ! m \<in> set alphabet" "sequence ! (m + 1) \<in> set alphabet"
    by (simp_all add: nth_mem del: One_nat_def)
  then have c: "symbol_index alphabet (sequence ! m) < k"
    and r: "symbol_index alphabet (sequence ! (m + 1)) < k"
    by (simp_all add: symbol_index_less k_def)
  have step: "foldl (count_pair alphabet sequence) (replicate k (replicate k 0)) [0 ..< Suc m]
                = increment gg (symbol_index alphabet (sequence ! (m + 1)))
                    (symbol_index alphabet (sequence ! m))"
    by (simp add: gg_def count_pair_def)
  have "square k (increment gg (symbol_index alphabet (sequence ! (m + 1)))
                    (symbol_index alphabet (sequence ! m)))"
    using sq by (rule square_increment)
  moreover have "increment gg (symbol_index alphabet (sequence ! (m + 1)))
                    (symbol_index alphabet (sequence ! m)) ! r' ! c'
                 = pairs_before alphabet sequence (Suc m) r' c'"
    if "r' < k" "c' < k" for r' c'
    using nth_increment[OF sq r c that] cnt that
    by (simp add: pairs_before_Suc del: One_nat_def)
  ultimately show ?case
    unfolding k_def [symmetric] step by blast
qed

lemma pairs_before_followed_by:
  assumes "distinct alphabet" "\<forall>s \<in> set sequence. s \<in> set alphabet"
    "r < length alphabet" "c < length alphabet"
  shows "pairs_before alphabet sequence (length sequence - 1) r c
           = followed_by sequence (alphabet ! c) (alphabet ! r)"
proof -
  have "(symbol_index alphabet (sequence ! (i + 1)) = r \<and> symbol_index alphabet (sequence ! i) = c)
        \<longleftrightarrow> (sequence ! i = alphabet ! c \<and> sequence ! (i + 1) = alphabet ! r)"
    if "i \<in> set [0 ..< length sequence - 1]" for i
  proof -
    from that have "i < length sequence" "i + 1 < length sequence" by auto
    with assms(2) have "sequence ! i \<in> set alphabet" "sequence ! (i + 1) \<in> set alphabet"
      by (simp_all add: nth_mem del: One_nat_def)
    with assms show ?thesis by (auto simp: symbol_index_eq_iff simp del: One_nat_def)
  qed
  then show ?thesis
    unfolding pairs_before_def followed_by_def
    by (intro arg_cong[where f = length] filter_cong refl)
qed

lemma two_grams_counts:
  assumes "distinct alphabet" "sequence \<noteq> []" "\<forall>s \<in> set sequence. s \<in> set alphabet"
  shows "\<exists>gg. two_grams alphabet sequence = Inr gg
           \<and> square (length alphabet) gg
           \<and> (\<forall>r < length alphabet. \<forall>c < length alphabet.
                gg ! r ! c = followed_by sequence (alphabet ! c) (alphabet ! r))"
proof -
  define gg where "gg = foldl (count_pair alphabet sequence)
     (replicate (length alphabet) (replicate (length alphabet) 0)) [0 ..< length sequence - 1]"
  have res: "two_grams alphabet sequence = Inr gg"
    using assms(2,3) by (auto simp: two_grams_def gg_def)
  from assms(2) have "length sequence - 1 + 1 \<le> length sequence \<or> length sequence - 1 = 0"
    by (cases sequence) simp_all
  from count_loop[OF assms(3) this]
  have sq: "square (length alphabet) gg"
    and cnt: "\<forall>r < length alphabet. \<forall>c < length alphabet.
                gg ! r ! c = pairs_before alphabet sequence (length sequence - 1) r c"
    by (simp_all add: gg_def)
  from cnt have "\<forall>r < length alphabet. \<forall>c < length alphabet.
                gg ! r ! c = followed_by sequence (alphabet ! c) (alphabet ! r)"
    using pairs_before_followed_by[OF assms(1) assms(3)] by simp
  with res sq show ?thesis by blast
qed

lemma column_nth: "square k gg \<Longrightarrow> column gg c = map (\<lambda>r. gg ! r ! c) [0 ..< k]"
  by (auto simp: column_def square_def intro: nth_equalityI)

lemma two_grams_example: "two_grams [0, 1 :: int] [0, 1, 0, 1, 0, 1] = Inr [[0, 2], [3, 0]]"
  by (simp add: two_grams_def count_pair_def increment_def upt_rec eval_nat_numeral)

section \<open>Properties of the average number of steps\<close>

lemma position_bounds: "t \<in> set xs \<Longrightarrow> 1 \<le> position t xs \<and> position t xs \<le> length xs"
  by (induction xs) auto

lemma position_hd: "xs \<noteq> [] \<Longrightarrow> hd xs = t \<Longrightarrow> position t xs = 1"
  by (cases xs) auto

lemma set_ranking: "set (ranking d) = {0 ..< length d}"
  by (simp add: ranking_def)

lemma length_ranking: "length (ranking d) = length d"
  by (simp add: ranking_def)

lemma rank_bounds:
  assumes "t < length d"
  shows "1 \<le> rank d t \<and> rank d t \<le> length d"
proof -
  from assms have "t \<in> set (ranking d)" by (simp add: set_ranking)
  from position_bounds[OF this] show ?thesis by (simp add: rank_def length_ranking)
qed

lemma sort_key_hd_least:
  fixes f :: "'a \<Rightarrow> 'b::linorder"
  assumes "x \<in> set xs" and "\<forall>y \<in> set xs. y \<noteq> x \<longrightarrow> f x < f y"
  shows "hd (sort_key f xs) = x"
proof (rule ccontr)
  let ?ys = "sort_key f xs"
  assume neq: "hd ?ys \<noteq> x"
  from assms(1) have ne: "?ys \<noteq> []" by (metis empty_iff list.set(1) set_sort)
  then obtain y zs where ys: "?ys = y # zs" by (cases ?ys) auto
  then have "y \<in> set xs" by (metis list.set_intros(1) set_sort)
  with assms(2) neq ys have less: "f x < f y" by simp
  from assms(1) have "x \<in> set ?ys" by simp
  with ys neq have "x \<in> set zs" by auto
  moreover have "sorted (map f ?ys)" by (rule sorted_sort_key)
  ultimately have "f y \<le> f x" by (simp add: ys)
  with less show False by simp
qed

lemma sum_list_nonneg_pair:
  fixes d :: "real list"
  assumes "\<forall>v \<in> set d. 0 \<le> v" "i < length d" "j < length d" "i \<noteq> j"
  shows "d ! i + d ! j \<le> sum_list d"
proof -
  have "d ! i + d ! j = (\<Sum>n \<in> {i, j}. d ! n)"
    using assms(4) by simp
  also have "\<dots> \<le> (\<Sum>n \<in> {0 ..< length d}. d ! n)"
    using assms by (intro sum_mono2) auto
  also have "\<dots> = sum_list d"
    by (simp add: sum_list_sum_nth)
  finally show ?thesis .
qed

lemma rank_certain:
  assumes "\<forall>v \<in> set d. 0 \<le> v" "sum_list d = 1" "t < length d" "d ! t = 1"
  shows "rank d t = 1"
proof -
  have others: "d ! j < d ! t" if "j < length d" "j \<noteq> t" for j
  proof -
    from sum_list_nonneg_pair[OF assms(1) that(1) assms(3) that(2)] assms(2,4)
    have "d ! j \<le> 0" by simp
    with assms(4) show ?thesis by simp
  qed
  have "hd (ranking d) = t"
    unfolding ranking_def
    using assms(3) others by (intro sort_key_hd_least) auto
  moreover from assms(3) have "ranking d \<noteq> []"
    using length_ranking[of d] by auto
  ultimately show ?thesis by (simp add: rank_def position_hd)
qed

lemma sum_list_between:
  assumes "\<forall>x \<in> set xs. 1 \<le> f x \<and> f x \<le> (k::nat)"
  shows "length xs \<le> sum_list (map f xs) \<and> sum_list (map f xs) \<le> k * length xs"
  using assms by (induction xs) (auto simp: add_mono)

lemma sum_list_all_one:
  assumes "\<forall>x \<in> set xs. f x = (1::nat)"
  shows "sum_list (map f xs) = length xs"
  using assms by (induction xs) auto

text \<open>
  Claim C1. For \<open>N \<ge> 1\<close> true labels and \<open>N\<close> predicted distributions over an
  alphabet of \<open>k\<close> symbols, \<open>avg_steps\<close> returns a score between 1 and \<open>k\<close>; when
  every distribution sums to 1 and gives probability 1 to the true label, the score is
  exactly 1.
\<close>

theorem avg_steps_range:
  assumes "trueLabels \<noteq> []"
    and "length trueLabels = length predictedDistributions"
    and "\<forall>i < length trueLabels.
           length (predictedDistributions ! i) = k \<and> trueLabels ! i < k
           \<and> (\<forall>v \<in> set (predictedDistributions ! i). 0 \<le> v)"
  shows "\<exists>s. avg_steps trueLabels predictedDistributions = Inr s
           \<and> 1 \<le> s \<and> s \<le> real k
           \<and> ((\<forall>i < length trueLabels.
                   sum_list (predictedDistributions ! i) = 1
                   \<and> predictedDistributions ! i ! (trueLabels ! i) = 1)
                \<longrightarrow> s = 1)"
proof -
  define zs where "zs = zip trueLabels predictedDistributions"
  define total where "total = sum_list (map (\<lambda>(t, d). rank d t) zs)"
  define n where "n = length trueLabels"
  have n: "0 < n" using assms(1) by (simp add: n_def)
  have len: "length zs = n" using assms(2) by (simp add: zs_def n_def)
  have elem: "\<exists>i < n. t = trueLabels ! i \<and> d = predictedDistributions ! i"
    if "(t, d) \<in> set zs" for t d
    using that assms(2) unfolding zs_def n_def by (auto simp: set_zip)
  have each: "length d = k \<and> t < k \<and> (\<forall>v \<in> set d. 0 \<le> v)" if "(t, d) \<in> set zs" for t d
    using elem[OF that] assms(3) by (auto simp: n_def)
  have wf: "well_formed trueLabels predictedDistributions"
    unfolding well_formed_def zs_def [symmetric] using assms(1,2) each by auto
  have res: "avg_steps trueLabels predictedDistributions = Inr (real total / real n)"
    using wf by (simp add: avg_steps_def total_def zs_def n_def)
  have "\<forall>z \<in> set zs. 1 \<le> (\<lambda>(t, d). rank d t) z \<and> (\<lambda>(t, d). rank d t) z \<le> k"
    using each rank_bounds by fastforce
  from sum_list_between[OF this] have "n \<le> total" "total \<le> k * n"
    by (simp_all add: total_def len)
  then have "real n \<le> real total" "real total \<le> real k * real n"
    by (metis of_nat_le_iff, metis of_nat_le_iff of_nat_mult)
  with n have lo: "1 \<le> real total / real n" and hi: "real total / real n \<le> real k"
    by (simp_all add: field_simps)
  have perfect: "real total / real n = 1"
    if p: "\<forall>i < length trueLabels.
             sum_list (predictedDistributions ! i) = 1
             \<and> predictedDistributions ! i ! (trueLabels ! i) = 1"
  proof -
    have "(\<lambda>(t, d). rank d t) z = 1" if "z \<in> set zs" for z
    proof -
      obtain t d where z: "z = (t, d)" by (cases z)
      from elem that z obtain i where i: "i < n" "t = trueLabels ! i" "d = predictedDistributions ! i"
        by blast
      with p have "sum_list d = 1" "d ! t = 1" by (simp_all add: n_def)
      moreover from each that z have "length d = k" "t < k" "\<forall>v \<in> set d. 0 \<le> v" by auto
      ultimately show ?thesis by (simp add: z rank_certain)
    qed
    then have "total = n"
      unfolding total_def using sum_list_all_one[of zs "\<lambda>(t, d). rank d t"] len by simp
    with n show ?thesis by simp
  qed
  from res lo hi perfect show ?thesis by blast
qed

lemma rank_example_0: "rank [1 / 4, 3 / 4] 0 = 2"
  by code_simp

lemma rank_example_1: "rank [1 / 4, 3 / 4] (Suc 0) = Suc 0"
  by code_simp

theorem avg_steps_range_witness:
  "[0, 1 :: nat] \<noteq> [] \<and> length [0, 1 :: nat] = length [[1 / 4, 3 / 4], [1 / 4, 3 / 4 :: real]]
   \<and> avg_steps [0, 1] [[1 / 4, 3 / 4], [1 / 4, 3 / 4]] = Inr (3 / 2)
   \<and> (\<exists>s. avg_steps [0, 1] [[1 / 4, 3 / 4], [1 / 4, 3 / 4]] = Inr s \<and> 1 \<le> s \<and> s \<le> real 2)
   \<and> sum_list [0, 1 :: real] = 1 \<and> [0, 1 :: real] ! 1 = 1
   \<and> sum_list [1, 0 :: real] = 1 \<and> [1, 0 :: real] ! 0 = 1
   \<and> avg_steps [1, 0] [[0, 1], [1, 0]] = Inr 1"
proof -
  have "avg_steps [0, 1] [[1 / 4, 3 / 4], [1 / 4, 3 / 4]] = Inr (3 / 2)"
    by (simp add: avg_steps_def well_formed_def rank_example_0 rank_example_1)
  moreover from avg_steps_range [of "[0, 1]" "[[1 / 4, 3 / 4], [1 / 4, 3 / 4]]" 2]
  have "\<exists>s. avg_steps [0, 1] [[1 / 4, 3 / 4], [1 / 4, 3 / 4]] = Inr s \<and> 1 \<le> s \<and> s \<le> real 2"
    by (simp add: All_less_Suc)
  moreover from avg_steps_range [of "[1, 0]" "[[0, 1], [1, 0]]" 2]
  have "avg_steps [1, 0] [[0, 1], [1, 0]] = Inr 1"
    by (simp add: All_less_Suc)
  ultimately show ?thesis by simp
qed

text \<open>
  The rank depends on the order of the entries only: dividing a row by a positive
  number, such as the sum of a column of counts, changes no rank.
\<close>

lemma insort_key_order_cong:
  fixes f g :: "'a \<Rightarrow> 'b::linorder"
  assumes "\<forall>y \<in> set ys. f x \<le> f y \<longleftrightarrow> g x \<le> g y"
  shows "insort_key f x ys = insort_key g x ys"
  using assms by (induction ys) auto

lemma sort_key_order_cong:
  fixes f g :: "'a \<Rightarrow> 'b::linorder"
  assumes "\<forall>x \<in> set xs. \<forall>y \<in> set xs. f x \<le> f y \<longleftrightarrow> g x \<le> g y"
  shows "sort_key f xs = sort_key g xs"
  using assms
proof (induction xs)
  case Nil
  show ?case by simp
next
  case (Cons x xs)
  then have "sort_key f xs = sort_key g xs" by simp
  moreover from Cons.prems have "\<forall>y \<in> set (sort_key g xs). f x \<le> f y \<longleftrightarrow> g x \<le> g y"
    by simp
  ultimately show ?case by (simp add: insort_key_order_cong)
qed

lemma rank_scale:
  assumes "0 < s"
  shows "rank (map (\<lambda>v. v / s) d) t = rank d t"
proof -
  have "sort_key (\<lambda>j. - (map (\<lambda>v. v / s) d ! j)) [0 ..< length d]
          = sort_key (\<lambda>j. - (d ! j)) [0 ..< length d]"
    using assms by (intro sort_key_order_cong) (simp add: divide_le_cancel)
  then show ?thesis by (simp add: rank_def ranking_def)
qed

lemma rank_normalize_column:
  assumes "0 < sum_list col"
  shows "rank (normalize_column col) t = rank (map real col) t"
proof -
  have "normalize_column col = map (\<lambda>v. v / real (sum_list col)) (map real col)"
    by (simp add: normalize_column_def)
  with assms show ?thesis by (simp only: rank_scale of_nat_0_less_iff)
qed

section \<open>Properties of the predictions of the bigram model\<close>

lemma y_pred2_example:
  "y_pred2 [0, 1, 0, 1, 0, 1] = Inr [[1 / 2, 1 / 2], [0, 3], [2, 0], [0, 3], [2, 0], [0, 3]]"
  by code_simp

lemma normalize_example: "normalize_column [0, 3] = [0, 1]" "normalize_column [2, 0] = [1, 0]"
  by (simp_all add: normalize_column_def)

text \<open>
  The claim C4 as it is written fails: the rows that the caller passes to the scoring
  are not the columns divided by their sums.
\<close>

theorem y_pred2_not_normalized:
  "y_pred2 [0, 1, 0, 1, 0, 1]
     \<noteq> Inr [[1 / 2, 1 / 2], normalize_column [0, 3], normalize_column [2, 0],
             normalize_column [0, 3], normalize_column [2, 0], normalize_column [0, 3]]"
  by (simp add: y_pred2_example normalize_example)

lemma foldl_max_in: "foldl max (a::int) xs \<in> set (a # xs)"
  by (induction xs arbitrary: a) (auto simp: max_def)

lemma amax_in: "xs \<noteq> [] \<Longrightarrow> amax xs \<in> set xs"
  using foldl_max_in[of "hd xs" "tl xs"] by (cases xs) (auto simp: amax_def)

lemma amax_indices:
  assumes "labels \<noteq> []" "distinct alphabet" "set alphabet = set labels"
  shows "nat (amax (map int (map (symbol_index alphabet) labels))) + 1 = length alphabet"
proof -
  define xs where "xs = map int (map (symbol_index alphabet) labels)"
  from assms(1) have ne: "xs \<noteq> []" by (simp add: xs_def)
  from assms(1,3) have k: "0 < length alphabet" by (cases alphabet) auto
  have below: "0 \<le> v \<and> v < int (length alphabet)" if "v \<in> set xs" for v
    using that assms(3) by (auto simp: xs_def symbol_index_less)
  from amax_in[OF ne] below have up: "0 \<le> amax xs" "amax xs < int (length alphabet)" by auto
  from k have "alphabet ! (length alphabet - 1) \<in> set labels"
    using assms(3) by (metis diff_less nth_mem zero_less_one)
  moreover from k assms(2) have "symbol_index alphabet (alphabet ! (length alphabet - 1)) = length alphabet - 1"
    by (simp add: symbol_index_nth)
  ultimately have "int (length alphabet - 1) \<in> set xs"
    unfolding xs_def by (metis (no_types, lifting) image_eqI list.set_map)
  from amax_ge[OF this] up k show ?thesis
    unfolding xs_def [symmetric] by linarith
qed

text \<open>
  Claim C4, amended. The transition-count operation returns the raw counts, natural
  numbers, without normalizing them, and the caller does not normalize them either:
  for a non-empty sequence \<open>y_pred2\<close> has the class probabilities as its first row
  and, for every position but the last, the raw column of counts of the symbol at
  that position as the next row, and these rows go to the scoring as they are.
\<close>

theorem y_pred2_raw_counts:
  assumes "labels \<noteq> []"
  shows "\<exists>p gg rows.
           prob (map int (map (symbol_index (sort (remdups labels))) labels)) = Inr p
           \<and> two_grams (sort (remdups labels)) labels = Inr gg
           \<and> (\<forall>r < length gg. \<forall>c < length gg.
                 gg ! r ! c = followed_by labels (sort (remdups labels) ! c) (sort (remdups labels) ! r))
           \<and> y_pred2 labels = Inr (p # rows)
           \<and> length rows = length labels - 1
           \<and> (\<forall>i < length labels - 1.
                 rows ! i = map real (column gg (symbol_index (sort (remdups labels)) (labels ! i)))
                 \<and> (\<forall>r < length gg.
                       rows ! i ! r = real (followed_by labels (labels ! i) (sort (remdups labels) ! r))))"
proof -
  define alphabet where "alphabet = sort (remdups labels)"
  define labelsX where "labelsX = map (symbol_index alphabet) labels"
  define k where "k = length alphabet"
  have dist: "distinct alphabet" and set_al: "set alphabet = set labels"
    by (simp_all add: alphabet_def)
  have mem: "\<forall>s \<in> set labels. s \<in> set alphabet" by (simp add: set_al)
  have idx: "symbol_index alphabet s < k" if "s \<in> set labels" for s
    using that by (simp add: k_def symbol_index_less set_al)
  from two_grams_counts[OF dist assms mem] obtain gg where
    gg: "two_grams alphabet labels = Inr gg" and sq: "square k gg"
    and cnt: "\<forall>r < k. \<forall>c < k. gg ! r ! c = followed_by labels (alphabet ! c) (alphabet ! r)"
    unfolding k_def by blast
  from sq have len_gg: "length gg = k" by (simp add: square_def)
  have nonneg: "\<forall>v \<in> set (map int labelsX). 0 \<le> v" by simp
  have ne: "map int labelsX \<noteq> []" using assms by (simp add: labelsX_def)
  define bc where "bc = map (\<lambda>b. count_list (map int labelsX) (int b))
                          [0 ..< nat (amax (map int labelsX)) + 1]"
  define p where "p = map (\<lambda>c. real c / real (sum_list bc)) bc"
  have "bincount (map int labelsX) = Inr bc"
    using bincount_ok(1)[OF nonneg ne] by (simp add: bc_def)
  then have p: "prob (map int labelsX) = Inr p"
    by (simp add: prob_def p_def)
  have len_p: "length p = k"
    using amax_indices[OF assms dist set_al]
    by (simp add: p_def bc_def labelsX_def k_def)
  define rows where "rows = map (\<lambda>c. map real (column gg c)) (butlast labelsX)"
  have in_range: "\<not> (\<exists>c \<in> set (butlast labelsX). length alphabet \<le> c)"
  proof
    assume "\<exists>c \<in> set (butlast labelsX). length alphabet \<le> c"
    then obtain c where "c \<in> set labelsX" "k \<le> c"
      by (auto simp: k_def dest: in_set_butlastD)
    then obtain s where "s \<in> set labels" "k \<le> symbol_index alphabet s"
      by (auto simp: labelsX_def)
    with idx[of s] show False by simp
  qed
  have res: "y_pred2 labels = Inr (p # rows)"
    using p gg in_range len_p len_gg
    unfolding y_pred2_def Let_def alphabet_def [symmetric] labelsX_def [symmetric] rows_def
    by simp
  have len_rows: "length rows = length labels - 1"
    by (simp add: rows_def labelsX_def)
  have row: "rows ! i = map real (column gg (symbol_index alphabet (labels ! i)))
             \<and> (\<forall>r < k. rows ! i ! r = real (followed_by labels (labels ! i) (alphabet ! r)))"
    if i: "i < length labels - 1" for i
  proof -
    from i have il: "i < length labels" by simp
    then have li: "labels ! i \<in> set labels" by simp
    define c where "c = symbol_index alphabet (labels ! i)"
    have c: "c < k" unfolding c_def using li by (rule idx)
    have ac: "alphabet ! c = labels ! i"
      unfolding c_def using li by (simp add: nth_symbol_index set_al)
    from i have "butlast labelsX ! i = c"
      by (simp add: labelsX_def c_def nth_butlast il)
    with i have r1: "rows ! i = map real (column gg c)"
      by (simp add: rows_def labelsX_def)
    have "rows ! i ! r = real (followed_by labels (labels ! i) (alphabet ! r))" if "r < k" for r
      using that c cnt ac by (simp add: r1 column_nth[OF sq])
    with r1 show ?thesis by (simp add: c_def)
  qed
  from cnt row have cnt': "\<forall>r < length gg. \<forall>c < length gg.
        gg ! r ! c = followed_by labels (alphabet ! c) (alphabet ! r)"
    and row': "\<forall>i < length labels - 1.
        rows ! i = map real (column gg (symbol_index alphabet (labels ! i)))
        \<and> (\<forall>r < length gg.
              rows ! i ! r = real (followed_by labels (labels ! i) (alphabet ! r)))"
    unfolding len_gg by blast+
  from p gg cnt' res len_rows row' show ?thesis
    unfolding alphabet_def labelsX_def by blast
qed

theorem y_pred2_raw_counts_witness:
  "[0, 1, 0, 1, 0, 1 :: int] \<noteq> []
   \<and> two_grams (sort (remdups [0, 1, 0, 1, 0, 1 :: int])) [0, 1, 0, 1, 0, 1] = Inr [[0, 2], [3, 0]]
   \<and> (\<exists>p rows. y_pred2 [0, 1, 0, 1, 0, 1] = Inr (p # rows)
         \<and> rows = [[0, 3], [2, 0], [0, 3], [2, 0], [0, 3]]
         \<and> length rows = 5
         \<and> rows ! 1 ! 0 = real (followed_by [0, 1, 0, 1, 0, 1 :: int] 1 0))"
proof -
  have "two_grams (sort (remdups [0, 1, 0, 1, 0, 1 :: int])) [0, 1, 0, 1, 0, 1] = Inr [[0, 2], [3, 0]]"
    by (simp add: two_grams_example)
  moreover have "followed_by [0, 1, 0, 1, 0, 1 :: int] 1 0 = 2"
    by (simp add: followed_by_def upt_rec)
  moreover note y_pred2_example y_pred2_raw_counts [of "[0, 1, 0, 1, 0, 1]"]
  ultimately show ?thesis by simp
qed

end
